theory Spec2Isabelle
  imports Complex_Main "HOL-Library.Word"
begin

section \<open>The weighted Max-Cut graph of the QAOA notebook\<close>

text \<open>
  The notebook's class \<open>Graph\<close> and the functions \<open>get_expectation\<close> and
  \<open>sk_get_exp\<close> are embedded as HOL functions. A method takes the object as its first
  argument; a method that assigns to a field, or that can raise, returns the object after
  the call next to its result, so that whatever was assigned before an exception is kept.
  An exception is a value of \<open>error\<close> on the left of a sum.
\<close>

subsection \<open>Python values\<close>

datatype error = AssertionError | IndexError | KeyError | ZeroDivisionError | OverflowError

text \<open>
  \<open>currentScore\<close> holds \<open>float('-inf')\<close> until the first bitstring is scored and an
  integer score afterwards.
\<close>

datatype best_score = NegInf | Score int

text \<open>The comparison \<open>score > self.currentScore\<close> of \<open>update_score\<close>.\<close>

fun exceeds :: "int \<Rightarrow> best_score \<Rightarrow> bool" where
  "exceeds s NegInf = True"
| "exceeds s (Score c) = (c < s)"

text \<open>
  A Python number is an int or a float, the float given by the 64 bits of its double.
\<close>

datatype number = PyInt int | PyFloat "64 word"

text \<open>
  The arithmetic on numbers belongs to the Python runtime, not to the notebook, and is a
  parameter of the functions that compute with floats: \<open>float(x)\<close>, \<open>x / y\<close>,
  \<open>x * y\<close> and \<open>x + y\<close>, each giving a number or raising. Nothing is assumed of it, so
  what is proved holds with the rounding, the infinities and the exceptions of the
  doubles.
\<close>

record arith =
  py_float :: "number \<Rightarrow> error + number"
  py_div :: "number \<Rightarrow> number \<Rightarrow> error + number"
  py_mul :: "number \<Rightarrow> number \<Rightarrow> error + number"
  py_add :: "number \<Rightarrow> number \<Rightarrow> error + number"

text \<open>
  Subscription \<open>bitstring[i]\<close> of a string or list by an integer: an index below zero
  counts from the end, an index outside \<open>[-len, len)\<close> raises \<open>IndexError\<close>.
\<close>

definition subscript :: "'a list \<Rightarrow> int \<Rightarrow> error + 'a" where
  "subscript xs i =
     (if 0 \<le> i \<and> i < int (length xs) then Inr (xs ! nat i)
      else if - int (length xs) \<le> i \<and> i < 0 then Inr (xs ! nat (int (length xs) + i))
      else Inl IndexError)"

text \<open>
  A \<open>dict\<close> is an association list with its keys in insertion order. The assignment
  \<open>d[k] = v\<close> replaces the value of a key already present, where it stands, and appends a
  new key at the end; \<open>map_of\<close> is the lookup \<open>d[k]\<close>, with \<open>None\<close> for \<open>KeyError\<close>.
\<close>

fun dict_set :: "'k \<Rightarrow> 'v \<Rightarrow> ('k \<times> 'v) list \<Rightarrow> ('k \<times> 'v) list" where
  "dict_set k v [] = [(k, v)]"
| "dict_set k v ((k', v') # d) = (if k' = k then (k, v) # d else (k', v') # dict_set k v d)"

subsection \<open>The class \<open>Graph\<close>\<close>

text \<open>
  Vertices and weights are Python integers, the number of vertices \<open>N\<close> and the
  counter \<open>E\<close> natural numbers. \<open>adj\<close> maps a vertex to the dict of its neighbours
  and their weights. The entries of \<open>runs\<close> are \<open>[gamma, beta, expected_value]\<close>,
  three numbers.
\<close>

record Graph =
  N :: nat
  E :: nat
  adj :: "(int \<times> (int \<times> int) list) list"
  currentScore :: best_score
  currentBest :: string
  runs :: "(number \<times> number \<times> number) list"

text \<open>
  \<open>__init__(N, randomize=False)\<close>. With \<open>randomize=True\<close> the constructor goes on to
  call \<open>add_edge\<close> for randomly drawn pairs and weights, and changes the object in no other
  way.
\<close>

definition Graph_init :: "nat \<Rightarrow> Graph" where
  "Graph_init n =
     \<lparr>N = n, E = 0, adj = map (\<lambda>k. (int k, [])) [0..<n],
      currentScore = NegInf, currentBest = [], runs = []\<rparr>"

text \<open>
  \<open>add_edge\<close>: the counter is incremented first, then \<open>self.adj[u][v] = weight\<close> looks
  \<open>adj[u]\<close> up (\<open>KeyError\<close> when \<open>u\<close> is no key) and assigns into that dict.
\<close>

definition add_edge :: "Graph \<Rightarrow> int \<Rightarrow> int \<Rightarrow> int \<Rightarrow> (error + unit) \<times> Graph" where
  "add_edge g u v weight =
     (let g1 = g\<lparr>E := E g + 1\<rparr> in
      case map_of (adj g1) u of
        None \<Rightarrow> (Inl KeyError, g1)
      | Some nbrs \<Rightarrow> (Inr (), g1\<lparr>adj := dict_set u (dict_set v weight nbrs) (adj g1)\<rparr>))"

text \<open>
  \<open>get_edges\<close>: the triples \<open>(u, v, adj[u][v])\<close>, \<open>u\<close> and \<open>v\<close> in dict order. The
  keys of a dict are distinct, so \<open>adj[u][v]\<close> is the weight listed with \<open>v\<close> under \<open>u\<close>.
\<close>

definition get_edges :: "Graph \<Rightarrow> (int \<times> int \<times> int) list" where
  "get_edges g = concat (map (\<lambda>(u, nbrs). map (\<lambda>(v, w). (u, v, w)) nbrs) (adj g))"

text \<open>
  The two nested loops of \<open>get_score\<close> visit the edges in the order of \<open>get_edges\<close>;
  \<open>bitstring[u]\<close> is read before \<open>bitstring[v]\<close>.
\<close>

fun score_loop :: "'a list \<Rightarrow> (int \<times> int \<times> int) list \<Rightarrow> int \<Rightarrow> error + int" where
  "score_loop bitstring [] score = Inr score"
| "score_loop bitstring ((u, v, w) # es) score =
     (case subscript bitstring u of
        Inl e \<Rightarrow> Inl e
      | Inr bu \<Rightarrow>
         (case subscript bitstring v of
            Inl e \<Rightarrow> Inl e
          | Inr bv \<Rightarrow> score_loop bitstring es (if bu \<noteq> bv then score + w else score)))"

definition get_score :: "Graph \<Rightarrow> 'a list \<Rightarrow> (error + int) \<times> Graph" where
  "get_score g bitstring =
     (if length bitstring \<noteq> N g then (Inl AssertionError, g)
      else (score_loop bitstring (get_edges g) 0, g))"

text \<open>\<open>bin(i)[2:]\<close>: the binary digits of \<open>i\<close>, most significant first, \<open>"0"\<close> for 0.\<close>

definition bit_char :: "nat \<Rightarrow> char" where
  "bit_char d = (if d = 0 then CHR ''0'' else CHR ''1'')"

fun bin_digits :: "nat \<Rightarrow> string" where
  "bin_digits i = (if i < 2 then [bit_char i] else bin_digits (i div 2) @ [bit_char (i mod 2)])"

declare bin_digits.simps [simp del]

text \<open>
  \<open>(self.N - len(bitstring)) * "0" + bitstring\<close>; a string times a negative number is
  the empty string, which is what the truncating subtraction gives.
\<close>

definition padded :: "nat \<Rightarrow> nat \<Rightarrow> string" where
  "padded n i = replicate (n - length (bin_digits i)) CHR ''0'' @ bin_digits i"

text \<open>The body of the loop of \<open>optimal_score\<close>, over the values of \<open>range(...)\<close>.\<close>

fun optimal_loop ::
  "Graph \<Rightarrow> nat list \<Rightarrow> int \<Rightarrow> string list \<Rightarrow> (error + int \<times> string list) \<times> Graph" where
  "optimal_loop g [] best best_val = (Inr (best, best_val), g)"
| "optimal_loop g (i # is) best best_val =
     (let bitstring = padded (N g) i in
      case get_score g bitstring of
        (Inl e, g1) \<Rightarrow> (Inl e, g1)
      | (Inr sc, g1) \<Rightarrow>
          if best < sc then optimal_loop g1 is sc [bitstring]
          else if sc = best then optimal_loop g1 is best (best_val @ [bitstring])
          else optimal_loop g1 is best best_val)"

text \<open>
  \<open>ceil((2 ** self.N)/2)\<close>: the division is a float division, which raises
  \<open>OverflowError\<close> when its result \<open>2 ** (N - 1)\<close> exceeds the largest double, that is
  for \<open>N > 1024\<close>; up to there it is exact, being a power of two.
\<close>

definition optimal_score :: "Graph \<Rightarrow> (error + int \<times> string list) \<times> Graph" where
  "optimal_score g =
     (if 1024 < N g then (Inl OverflowError, g)
      else optimal_loop g [0..<nat \<lceil>(2 ^ N g :: rat) / 2\<rceil>] 0 [])"

definition update_score :: "Graph \<Rightarrow> string \<Rightarrow> (error + int) \<times> Graph" where
  "update_score g bitstring =
     (case get_score g bitstring of
        (Inl e, g1) \<Rightarrow> (Inl e, g1)
      | (Inr score, g1) \<Rightarrow>
          (Inr score,
           if exceeds score (currentScore g1)
           then g1\<lparr>currentScore := Score score, currentBest := bitstring\<rparr>
           else g1))"

definition clear_runs :: "Graph \<Rightarrow> Graph" where
  "clear_runs g = g\<lparr>currentScore := NegInf, currentBest := [], runs := []\<rparr>"

definition add_run :: "Graph \<Rightarrow> number \<Rightarrow> number \<Rightarrow> number \<Rightarrow> Graph" where
  "add_run g gamma beta expected_value = g\<lparr>runs := runs g @ [(gamma, beta, expected_value)]\<rparr>"

subsection \<open>The objective function\<close>

text \<open>
  \<open>get_expectation(x, g, NUM_SHOTS)\<close> builds a circuit from \<open>g.get_edges()\<close> and
  \<open>x = (gamma, beta)\<close>, has the simulator run it, and reads the counts of the measured
  bitstrings. The simulator is outside the notebook: its answer \<open>result_dict\<close> is a
  parameter here, a dict from bitstring to count. What follows the simulator's answer is
  the notebook's own code: the loop that accumulates \<open>exp\<close> (here \<open>expv\<close>), then \<open>add_run\<close>.
  In the loop \<open>prob = np.float(result_dict[bitstring]) / NUM_SHOTS\<close> comes first, then
  \<open>score = g.update_score(bitstring)\<close>, then \<open>exp += score * prob\<close>; \<open>exp\<close> starts as
  the int 0.
\<close>

fun expectation_loop ::
  "arith \<Rightarrow> Graph \<Rightarrow> nat \<Rightarrow> (string \<times> nat) list \<Rightarrow> number \<Rightarrow> (error + number) \<times> Graph" where
  "expectation_loop a g NUM_SHOTS [] expv = (Inr expv, g)"
| "expectation_loop a g NUM_SHOTS ((bitstring, count) # rest) expv =
     (case py_float a (PyInt (int count)) of
        Inl e \<Rightarrow> (Inl e, g)
      | Inr f \<Rightarrow>
     (case py_div a f (PyInt (int NUM_SHOTS)) of
        Inl e \<Rightarrow> (Inl e, g)
      | Inr prob \<Rightarrow>
     (case update_score g bitstring of
        (Inl e, g1) \<Rightarrow> (Inl e, g1)
      | (Inr score, g1) \<Rightarrow>
     (case py_mul a (PyInt score) prob of
        Inl e \<Rightarrow> (Inl e, g1)
      | Inr summand \<Rightarrow>
     (case py_add a expv summand of
        Inl e \<Rightarrow> (Inl e, g1)
      | Inr expv' \<Rightarrow> expectation_loop a g1 NUM_SHOTS rest expv')))))"

definition get_expectation ::
  "arith \<Rightarrow> number \<times> number \<Rightarrow> Graph \<Rightarrow> nat \<Rightarrow> (string \<times> nat) list \<Rightarrow>
     (error + number) \<times> Graph" where
  "get_expectation a x g NUM_SHOTS result_dict =
     (case x of (gamma, beta) \<Rightarrow>
        (case expectation_loop a g NUM_SHOTS result_dict (PyInt 0) of
           (Inl e, g1) \<Rightarrow> (Inl e, g1)
         | (Inr expv, g1) \<Rightarrow> (Inr expv, add_run g1 gamma beta expv)))"


subsection \<open>The graph of the concrete scenario\<close>

text \<open>
  Three vertices, \<open>add_edge(0, 1, 5)\<close> and \<open>add_edge(1, 2, 3)\<close> on a graph made without
  random edges.
\<close>

definition path3 :: Graph where
  "path3 = snd (add_edge (snd (add_edge (Graph_init 3) 0 1 5)) 1 2 3)"

definition twice_added :: Graph where
  "twice_added = snd (add_edge (snd (add_edge (Graph_init 2) 0 1 5)) 0 1 7)"

subsection \<open>Notions used to state the properties\<close>

text \<open>The total number of entries across the neighbour dicts of all vertices.\<close>

definition entry_count :: "Graph \<Rightarrow> nat" where
  "entry_count g = sum_list (map (\<lambda>(u, nbrs). length nbrs) (adj g))"

text \<open>
  Every stored vertex number is a valid subscript of a string of length \<open>N\<close>. A graph
  built by \<open>add_edge\<close> with \<open>u\<close> and \<open>v\<close> in \<open>[0, N)\<close> is of this kind.
\<close>

definition in_range :: "nat \<Rightarrow> (int \<times> int \<times> int) list \<Rightarrow> bool" where
  "in_range n es \<longleftrightarrow>
     (\<forall>(u, v, w) \<in> set es. - int n \<le> u \<and> u < int n \<and> - int n \<le> v \<and> v < int n)"

definition valid_edges :: "Graph \<Rightarrow> bool" where
  "valid_edges g \<longleftrightarrow> in_range (N g) (get_edges g)"

text \<open>The value \<open>get_score\<close> returns (0 where it raises).\<close>

definition score_of :: "Graph \<Rightarrow> 'a list \<Rightarrow> int" where
  "score_of g bitstring = (case fst (get_score g bitstring) of Inr s \<Rightarrow> s | Inl e \<Rightarrow> 0)"

text \<open>
  The specification's words for the score: the sum of the weights of the stored edges
  \<open>(u, v, w)\<close> whose ends carry different values.
\<close>

definition place :: "'a list \<Rightarrow> int \<Rightarrow> 'a" where
  "place xs i = (if 0 \<le> i then xs ! nat i else xs ! nat (int (length xs) + i))"

definition cut_weight :: "(int \<times> int \<times> int) list \<Rightarrow> 'a list \<Rightarrow> int" where
  "cut_weight es bitstring =
     sum_list (map (\<lambda>(u, v, w). if place bitstring u \<noteq> place bitstring v then w else 0) es)"

text \<open>A bitstring of length \<open>n\<close>, and the bitwise complement.\<close>

definition is_bitstring :: "nat \<Rightarrow> string \<Rightarrow> bool" where
  "is_bitstring n b \<longleftrightarrow> length b = n \<and> set b \<subseteq> {CHR ''0'', CHR ''1''}"

definition flip :: "char \<Rightarrow> char" where
  "flip c = (if c = CHR ''0'' then CHR ''1'' else if c = CHR ''1'' then CHR ''0'' else c)"

definition complement :: "string \<Rightarrow> string" where
  "complement b = map flip b"

text \<open>
  The \<open>n\<close> low binary digits of \<open>i\<close>, most significant first: what \<open>padded n i\<close> is
  for \<open>i\<close> below \<open>2 ^ n\<close>.
\<close>

fun bits :: "nat \<Rightarrow> nat \<Rightarrow> string" where
  "bits 0 i = []"
| "bits (Suc n) i = bits n (i div 2) @ [bit_char (i mod 2)]"

text \<open>
  A sequence of \<open>update_score\<close> calls, one per bitstring, with the list of the values
  returned; the first exception ends it.
\<close>

fun update_scores :: "Graph \<Rightarrow> string list \<Rightarrow> (error + int list) \<times> Graph" where
  "update_scores g [] = (Inr [], g)"
| "update_scores g (b # bs) =
     (case update_score g b of
        (Inl e, g1) \<Rightarrow> (Inl e, g1)
      | (Inr s, g1) \<Rightarrow>
          (case update_scores g1 bs of
             (Inl e, g2) \<Rightarrow> (Inl e, g2)
           | (Inr ss, g2) \<Rightarrow> (Inr (s # ss), g2)))"




text \<open>
  The calls made on a graph during optimization, what a call gives back, and the record of
  a sequence of calls: after each call its outcome and the graph. An exception ends the
  sequence.
\<close>

datatype call =
    Update_score string
  | Add_run number number number
  | Get_expectation "number \<times> number" nat "(string \<times> nat) list"

datatype outcome = Raised error | Returned_int int | Returned_number number | Returned_none

fun perform :: "arith \<Rightarrow> Graph \<Rightarrow> call \<Rightarrow> outcome \<times> Graph" where
  "perform a g (Update_score b) =
     (case update_score g b of (Inl e, g1) \<Rightarrow> (Raised e, g1) | (Inr s, g1) \<Rightarrow> (Returned_int s, g1))"
| "perform a g (Add_run gamma beta expected_value) =
     (Returned_none, add_run g gamma beta expected_value)"
| "perform a g (Get_expectation x NUM_SHOTS result_dict) =
     (case get_expectation a x g NUM_SHOTS result_dict of
        (Inl e, g1) \<Rightarrow> (Raised e, g1)
      | (Inr v, g1) \<Rightarrow> (Returned_number v, g1))"

fun trace :: "arith \<Rightarrow> Graph \<Rightarrow> call list \<Rightarrow> (outcome \<times> Graph) list" where
  "trace a g [] = []"
| "trace a g (c # cs) =
     (case perform a g c of
        (Raised e, g1) \<Rightarrow> [(Raised e, g1)]
      | (r, g1) \<Rightarrow> (r, g1) # trace a g1 cs)"

definition graph_after :: "arith \<Rightarrow> Graph \<Rightarrow> call list \<Rightarrow> Graph" where
  "graph_after a g cs = last (g # map snd (trace a g cs))"

text \<open>
  A graph as constructed: \<open>__init__\<close>, then \<open>add_edge\<close> for each triple, up to the
  first exception.
\<close>

fun add_edges :: "Graph \<Rightarrow> (int \<times> int \<times> int) list \<Rightarrow> Graph" where
  "add_edges g [] = g"
| "add_edges g ((u, v, w) # es) =
     (case add_edge g u v w of (Inl e, g1) \<Rightarrow> g1 | (Inr r, g1) \<Rightarrow> add_edges g1 es)"


section \<open>Properties\<close>

subsection \<open>Dicts\<close>

lemma map_of_dict_set: "map_of (dict_set k v d) = (map_of d)(k \<mapsto> v)"
  by (induction d) auto

lemma set_dict_set: "set (dict_set k v d) \<subseteq> insert (k, v) (set d)"
  by (induction d) (auto split: if_splits)

subsection \<open>The concrete scenario\<close>

lemma path3_eq:
  "path3 = \<lparr>N = 3, E = 2, adj = [(0, [(1, 5)]), (1, [(2, 3)]), (2, [])],
            currentScore = NegInf, currentBest = [], runs = []\<rparr>"
  by code_simp

text \<open>
  Claim C9. On the graph with three vertices and the edges (0,1) of weight 5 and (1,2) of
  weight 3, \<open>get_score\<close> returns 0 for "000", 8 for "010", 5 for "100", 3 for "001", 5 for
  "011" and 3 for "110", and \<open>optimal_score\<close> returns 8 with the one solution "010".
\<close>

theorem scenario_scores:
  "fst (get_score path3 ''000'') = Inr 0 \<and>
   fst (get_score path3 ''010'') = Inr 8 \<and>
   fst (get_score path3 ''100'') = Inr 5 \<and>
   fst (get_score path3 ''001'') = Inr 3 \<and>
   fst (get_score path3 ''011'') = Inr 5 \<and>
   fst (get_score path3 ''110'') = Inr 3 \<and>
   fst (optimal_score path3) = Inr (8, [''010''])"
  by code_simp

subsection \<open>Argument checks\<close>

text \<open>
  Claim C6. \<open>get_score\<close> on a bitstring whose length is not \<open>N\<close> fails: the assertion
  \<open>len(bitstring) == self.N\<close> raises, which is the notebook's form of the
  specification's InvalidArgument. So does \<open>[0, 1]\<close> on the graph with three vertices.
\<close>

theorem get_score_wrong_length:
  "length bitstring \<noteq> N g \<Longrightarrow> get_score g bitstring = (Inl AssertionError, g)"
  by (simp add: get_score_def)

theorem get_score_wrong_length_witness:
  "length [0::int, 1] \<noteq> N path3 \<and> get_score path3 [0::int, 1] = (Inl AssertionError, path3)"
proof -
  have h: "length [0::int, 1] \<noteq> N path3" by (simp add: path3_eq)
  show ?thesis using h get_score_wrong_length [OF h] by simp
qed

text \<open>
  Claim C2, as stated, fails: \<open>add_edge(0, 1, -1)\<close> and \<open>add_edge(0, 0, 5)\<close> on a graph
  with three vertices both return normally.
\<close>

theorem add_edge_accepts_counterexample:
  "fst (add_edge (Graph_init 3) 0 1 (- 1)) = Inr () \<and>
   fst (add_edge (Graph_init 3) 0 0 5) = Inr ()"
  by code_simp

text \<open>
  Claim C2, amended. \<open>add_edge\<close> checks neither that \<open>u\<close> and \<open>v\<close> differ nor that the
  weight is positive: whenever \<open>u\<close> is a key of \<open>adj\<close> it returns normally, for every \<open>v\<close>
  and every weight, with \<open>E\<close> one larger and the weight stored as \<open>adj[u][v]\<close>. Its only
  failure is the \<open>KeyError\<close> for a \<open>u\<close> that is no key of \<open>adj\<close>, raised after \<open>E\<close> was
  incremented.
\<close>

theorem add_edge_unchecked:
  "(map_of (adj g) u = Some nbrs \<longrightarrow>
      (\<exists>g'. add_edge g u v weight = (Inr (), g') \<and> E g' = E g + 1 \<and>
            (\<exists>nbrs'. map_of (adj g') u = Some nbrs' \<and> map_of nbrs' v = Some weight))) \<and>
   (map_of (adj g) u = None \<longrightarrow> add_edge g u v weight = (Inl KeyError, g\<lparr>E := E g + 1\<rparr>))"
  by (simp add: add_edge_def Let_def map_of_dict_set)

theorem add_edge_unchecked_witness:
  "map_of (adj (Graph_init 3)) 0 = Some [] \<and>
   (\<exists>g'. add_edge (Graph_init 3) 0 0 (- 1) = (Inr (), g') \<and> E g' = E (Graph_init 3) + 1 \<and>
         (\<exists>nbrs'. map_of (adj g') 0 = Some nbrs' \<and> map_of nbrs' 0 = Some (- 1))) \<and>
   map_of (adj (Graph_init 3)) 7 = None \<and>
   add_edge (Graph_init 3) 7 0 1 = (Inl KeyError, (Graph_init 3)\<lparr>E := E (Graph_init 3) + 1\<rparr>)"
proof -
  have h: "map_of (adj (Graph_init 3)) 0 = Some []" by code_simp
  have k: "map_of (adj (Graph_init 3)) 7 = None" by code_simp
  show ?thesis
    using h k add_edge_unchecked [of "Graph_init 3" 0 "[]" 0 "- 1"]
      add_edge_unchecked [of "Graph_init 3" 7 "[]" 0 1]
    by simp
qed

subsection \<open>The edge counter\<close>

text \<open>
  \<open>add_edge\<close> on a vertex \<open>u\<close> always adds one to \<open>E\<close>; it adds an entry only when
  \<open>adj[u]\<close> has no \<open>v\<close> yet.
\<close>

lemma length_dict_set:
  "length (dict_set k v d) = (if map_of d k = None then length d + 1 else length d)"
  by (induction d) auto

lemma entries_dict_set:
  "map_of d k = Some old \<Longrightarrow>
   sum_list (map (\<lambda>(u, nbrs). length nbrs) (dict_set k new d)) + length old =
   sum_list (map (\<lambda>(u, nbrs). length nbrs) d) + length new"
  by (induction d) (auto split: if_splits)

lemma entry_count_add_edge:
  assumes "map_of (adj g) u = Some nbrs"
  shows "entry_count (snd (add_edge g u v w)) =
           (if map_of nbrs v = None then entry_count g + 1 else entry_count g) \<and>
         E (snd (add_edge g u v w)) = E g + 1"
  using assms entries_dict_set [OF assms, of "dict_set v w nbrs"]
  by (simp add: add_edge_def entry_count_def length_dict_set split: if_splits)

text \<open>
  Claim C3 at \<open>add_edge(0, 1, 5)\<close> followed by \<open>add_edge(0, 1, 7)\<close> on a graph with two
  vertices: both calls return normally, the second overwrites the weight, and \<open>E\<close> is 2
  while the neighbour dicts hold one entry.
\<close>

theorem add_edge_twice_counts_twice:
  "fst (add_edge (Graph_init 2) 0 1 5) = Inr () \<and>
   fst (add_edge (snd (add_edge (Graph_init 2) 0 1 5)) 0 1 7) = Inr () \<and>
   adj twice_added = [(0, [(1, 7)]), (1, [])] \<and>
   E twice_added = 2 \<and> entry_count twice_added = 1"
  by code_simp

subsection \<open>\<open>optimal_score\<close> changes nothing\<close>

lemma optimal_loop_frame: "snd (optimal_loop g is best best_val) = g"
  by (induction "is" arbitrary: best best_val)
     (auto simp: get_score_def Let_def split: sum.splits)

text \<open>
  Claim C10. The graph after \<open>optimal_score\<close> is the graph before it, whether the call
  returns or raises: \<open>currentScore\<close>, \<open>currentBest\<close>, \<open>runs\<close>, \<open>N\<close>, \<open>E\<close> and \<open>adj\<close> are
  unchanged.
\<close>

theorem optimal_score_frame:
  "snd (optimal_score g) = g"
  by (simp add: optimal_score_def optimal_loop_frame)

subsection \<open>The score is the weight of the cut\<close>

lemma subscript_place:
  "- int (length xs) \<le> i \<Longrightarrow> i < int (length xs) \<Longrightarrow> subscript xs i = Inr (place xs i)"
  by (auto simp: subscript_def place_def)

lemma score_loop_cut_weight:
  "in_range (length b) es \<Longrightarrow> score_loop b es acc = Inr (acc + cut_weight es b)"
proof (induction es arbitrary: acc)
  case Nil
  then show ?case by (simp add: cut_weight_def)
next
  case (Cons e es)
  obtain u v w where e: "e = (u, v, w)" by (cases e)
  from Cons.prems have r: "in_range (length b) es"
    and u: "- int (length b) \<le> u" "u < int (length b)"
    and v: "- int (length b) \<le> v" "v < int (length b)"
    by (auto simp: in_range_def e)
  show ?case
    using Cons.IH [OF r] u v
    by (simp add: e subscript_place cut_weight_def)
qed

lemma get_score_cut_weight:
  "valid_edges g \<Longrightarrow> length b = N g \<Longrightarrow>
   get_score g b = (Inr (cut_weight (get_edges g) b), g)"
  by (simp add: get_score_def valid_edges_def score_loop_cut_weight)

lemma score_of_cut_weight:
  "valid_edges g \<Longrightarrow> length b = N g \<Longrightarrow> score_of g b = cut_weight (get_edges g) b"
  by (simp add: score_of_def get_score_cut_weight)

subsection \<open>Symmetry under the global flip\<close>

lemma flip_eq_iff: "flip a = flip b \<longleftrightarrow> a = b"
  by (auto simp: flip_def split: if_splits)

lemma place_complement:
  "- int (length b) \<le> i \<Longrightarrow> i < int (length b) \<Longrightarrow>
   place (complement b) i = flip (place b i)"
  by (auto simp: place_def complement_def)

lemma cut_weight_complement:
  "in_range (length b) es \<Longrightarrow> cut_weight es (complement b) = cut_weight es b"
proof -
  assume r: "in_range (length b) es"
  have "(if place (complement b) u \<noteq> place (complement b) v then w else 0) =
        (if place b u \<noteq> place b v then w else 0)"
    if "(u, v, w) \<in> set es" for u v w
    using that r by (auto simp: in_range_def place_complement flip_eq_iff)
  then have eq: "map (\<lambda>(u, v, w). if place (complement b) u \<noteq> place (complement b) v then w else 0) es =
             map (\<lambda>(u, v, w). if place b u \<noteq> place b v then w else 0) es"
    by (intro map_cong) auto
  show ?thesis by (simp only: cut_weight_def eq)
qed

text \<open>
  Claim C7. On a graph whose stored vertex numbers are valid subscripts, \<open>get_score\<close>
  returns the same score for a string of length \<open>N\<close> and for its bitwise complement.
\<close>

theorem get_score_complement:
  "valid_edges g \<Longrightarrow> length b = N g \<Longrightarrow>
   \<exists>s. get_score g b = (Inr s, g) \<and> get_score g (complement b) = (Inr s, g)"
proof -
  assume v: "valid_edges g" and l: "length b = N g"
  have lc: "length (complement b) = N g" by (simp add: complement_def l)
  have "cut_weight (get_edges g) (complement b) = cut_weight (get_edges g) b"
    using v l by (simp add: valid_edges_def cut_weight_complement)
  then show ?thesis
    using get_score_cut_weight [OF v l] get_score_cut_weight [OF v lc] by simp
qed

theorem get_score_complement_witness:
  "valid_edges path3 \<and> length ''011'' = N path3 \<and>
   (\<exists>s. get_score path3 ''011'' = (Inr s, path3) \<and>
        get_score path3 (complement ''011'') = (Inr s, path3))"
proof -
  have v: "valid_edges path3" by code_simp
  have l: "length ''011'' = N path3" by code_simp
  show ?thesis using v l get_score_complement [OF v l] by simp
qed

subsection \<open>The best bitstring seen\<close>

lemma get_edges_topology: "adj g' = adj g \<Longrightarrow> get_edges g' = get_edges g"
  by (simp add: get_edges_def)

lemma score_of_topology: "N g' = N g \<Longrightarrow> adj g' = adj g \<Longrightarrow> score_of g' b = score_of g b"
  by (simp add: score_of_def get_score_def get_edges_def)

lemma valid_edges_topology: "N g' = N g \<Longrightarrow> adj g' = adj g \<Longrightarrow> valid_edges g' = valid_edges g"
  by (simp add: valid_edges_def get_edges_def)

lemma update_score_valid:
  "valid_edges g \<Longrightarrow> length b = N g \<Longrightarrow>
   update_score g b =
     (Inr (score_of g b),
      if exceeds (score_of g b) (currentScore g)
      then g\<lparr>currentScore := Score (score_of g b), currentBest := b\<rparr> else g)"
  by (simp add: update_score_def get_score_cut_weight score_of_cut_weight)

lemma Max_insert_max:
  "finite S \<Longrightarrow> Max (insert (max c s) S) = Max (insert c (insert s S))"
  for c s :: int
  by (cases "S = {}") (auto simp: max.assoc)

lemma update_score_step:
  assumes "valid_edges g" and "length b = N g" and "currentScore g = Score c"
  shows "\<exists>g1. update_score g b = (Inr (score_of g b), g1) \<and> N g1 = N g \<and> adj g1 = adj g \<and>
          currentScore g1 = Score (max c (score_of g b)) \<and>
          ((currentBest g1 = currentBest g \<and> max c (score_of g b) = c) \<or>
           (currentBest g1 = b \<and> max c (score_of g b) = score_of g b))"
proof (cases "c < score_of g b")
  case True
  then show ?thesis
    using update_score_valid [OF assms(1,2)] assms(3) by (simp add: max_def)
next
  case False
  then show ?thesis
    using update_score_valid [OF assms(1,2)] assms(3) by (simp add: max_def)
qed

lemma update_scores_from_Score:
  "valid_edges g \<Longrightarrow> currentScore g = Score c \<Longrightarrow> \<forall>b\<in>set bs. length b = N g \<Longrightarrow>
   \<exists>g'. update_scores g bs = (Inr (map (score_of g) bs), g') \<and>
        N g' = N g \<and> adj g' = adj g \<and>
        currentScore g' = Score (Max (insert c (set (map (score_of g) bs)))) \<and>
        ((currentBest g' = currentBest g \<and> Max (insert c (set (map (score_of g) bs))) = c) \<or>
         (currentBest g' \<in> set bs \<and>
          score_of g (currentBest g') = Max (insert c (set (map (score_of g) bs)))))"
proof (induction bs arbitrary: g c)
  case Nil
  then show ?case by simp
next
  case (Cons b bs)
  define s where "s = score_of g b"
  define M where "M = Max (insert (max c s) (set (map (score_of g) bs)))"
  have len: "length b = N g" using Cons.prems(3) by simp
  from update_score_step [OF Cons.prems(1) len Cons.prems(2)] obtain g1 where
    step: "update_score g b = (Inr s, g1)" and top: "N g1 = N g" "adj g1 = adj g"
    and c1: "currentScore g1 = Score (max c s)"
    and b1: "(currentBest g1 = currentBest g \<and> max c s = c) \<or> (currentBest g1 = b \<and> max c s = s)"
    unfolding s_def by blast
  have v1: "valid_edges g1" using Cons.prems(1) valid_edges_topology [OF top] by simp
  have l1: "\<forall>b\<in>set bs. length b = N g1" using Cons.prems(3) top by simp
  have sc: "score_of g1 = score_of g" using score_of_topology [OF top] by (intro ext)
  from Cons.IH [OF v1 c1 l1] obtain g' where
    run: "update_scores g1 bs = (Inr (map (score_of g) bs), g')"
    and t: "N g' = N g" "adj g' = adj g"
    and cs: "currentScore g' = Score M"
    and cb: "(currentBest g' = currentBest g1 \<and> M = max c s) \<or>
             (currentBest g' \<in> set bs \<and> score_of g (currentBest g') = M)"
    unfolding sc top M_def by blast
  have mx: "Max (insert c (set (map (score_of g) (b # bs)))) = M"
    using Max_insert_max [of "set (map (score_of g) bs)" c s] by (simp add: M_def s_def)
  have r: "update_scores g (b # bs) = (Inr (map (score_of g) (b # bs)), g')"
    using step run by (simp add: s_def)
  have bst: "(currentBest g' = currentBest g \<and> M = c) \<or>
             (currentBest g' \<in> set (b # bs) \<and> score_of g (currentBest g') = M)"
  proof -
    from cb show ?thesis
    proof
      assume a: "currentBest g' = currentBest g1 \<and> M = max c s"
      from b1 show ?thesis
      proof
        assume "currentBest g1 = currentBest g \<and> max c s = c"
        with a show ?thesis by simp
      next
        assume "currentBest g1 = b \<and> max c s = s"
        with a show ?thesis by (simp add: s_def)
      qed
    next
      assume "currentBest g' \<in> set bs \<and> score_of g (currentBest g') = M"
      then show ?thesis by simp
    qed
  qed
  show ?case unfolding mx using r t cs bst by blast
qed

text \<open>
  Claim C5. On a graph whose \<open>currentScore\<close> is \<open>-inf\<close> (freshly created, or cleared),
  a sequence of \<open>update_score\<close> calls on strings of length \<open>N\<close> returns, call by call,
  the score of its argument; afterwards \<open>currentScore\<close> is the largest of these scores
  and \<open>currentBest\<close> is one of the strings passed, with that score. After no call at all
  \<open>currentScore\<close> is still \<open>-inf\<close>.
\<close>

theorem update_scores_keeps_maximum:
  "valid_edges g \<Longrightarrow> currentScore g = NegInf \<Longrightarrow> \<forall>b\<in>set bs. length b = N g \<Longrightarrow>
   \<exists>g'. update_scores g bs = (Inr (map (score_of g) bs), g') \<and>
        (\<forall>b\<in>set bs. fst (get_score g b) = Inr (score_of g b)) \<and>
        (bs = [] \<longrightarrow> currentScore g' = NegInf) \<and>
        (bs \<noteq> [] \<longrightarrow>
           currentScore g' = Score (Max (set (map (score_of g) bs))) \<and>
           currentBest g' \<in> set bs \<and>
           score_of g (currentBest g') = Max (set (map (score_of g) bs)))"
proof (cases bs)
  case Nil
  assume "currentScore g = NegInf"
  then show ?thesis using Nil by simp
next
  case (Cons b bs')
  assume v: "valid_edges g" and n: "currentScore g = NegInf"
    and l: "\<forall>b\<in>set bs. length b = N g"
  define s where "s = score_of g b"
  define g1 where "g1 = g\<lparr>currentScore := Score s, currentBest := b\<rparr>"
  define M where "M = Max (set (map (score_of g) bs))"
  have len: "length b = N g" using l Cons by simp
  have step: "update_score g b = (Inr s, g1)"
    using update_score_valid [OF v len] n by (simp add: s_def g1_def)
  have top: "N g1 = N g" "adj g1 = adj g" by (simp_all add: g1_def)
  have v1: "valid_edges g1" using v valid_edges_topology [OF top] by simp
  have c1: "currentScore g1 = Score s" by (simp add: g1_def)
  have b1: "currentBest g1 = b" by (simp add: g1_def)
  have l1: "\<forall>b\<in>set bs'. length b = N g1" using l Cons top by simp
  have sc: "score_of g1 = score_of g" using score_of_topology [OF top] by (intro ext)
  have M: "Max (insert s (set (map (score_of g) bs'))) = M"
    by (simp add: M_def Cons s_def)
  from update_scores_from_Score [OF v1 c1 l1] obtain g' where
    run: "update_scores g1 bs' = (Inr (map (score_of g) bs'), g')"
    and cs: "currentScore g' = Score M"
    and cb: "(currentBest g' = b \<and> M = s) \<or>
             (currentBest g' \<in> set bs' \<and> score_of g (currentBest g') = M)"
    unfolding sc M b1 by blast
  have r: "update_scores g bs = (Inr (map (score_of g) bs), g')"
    using step run Cons by (simp add: s_def)
  have sc_ok: "\<forall>b\<in>set bs. fst (get_score g b) = Inr (score_of g b)"
    using l v by (simp add: get_score_cut_weight score_of_cut_weight)
  have bst: "currentBest g' \<in> set bs \<and> score_of g (currentBest g') = M"
    using cb Cons by (auto simp: s_def)
  have ne: "bs \<noteq> []" using Cons by simp
  show ?thesis unfolding M_def [symmetric] using r sc_ok cs bst ne by blast
qed

theorem update_scores_keeps_maximum_witness:
  "valid_edges path3 \<and> currentScore path3 = NegInf \<and>
   length ''001'' = N path3 \<and> length ''010'' = N path3 \<and> length ''011'' = N path3 \<and>
   fst (update_scores path3 [''001'', ''010'', ''011'']) = Inr [3, 8, 5] \<and>
   currentScore (snd (update_scores path3 [''001'', ''010'', ''011''])) = Score 8 \<and>
   currentBest (snd (update_scores path3 [''001'', ''010'', ''011''])) = ''010''"
proof -
  have v: "valid_edges path3" by code_simp
  have n: "currentScore path3 = NegInf" by code_simp
  have l: "\<forall>b\<in>set [''001'', ''010'', ''011'']. length b = N path3"
    by (simp add: path3_eq)
  have s1: "score_of path3 ''001'' = 3" by code_simp
  have s2: "score_of path3 ''010'' = 8" by code_simp
  have s3: "score_of path3 ''011'' = 5" by code_simp
  from update_scores_keeps_maximum [OF v n l] obtain g' where
    r: "update_scores path3 [''001'', ''010'', ''011''] = (Inr [3, 8, 5], g')"
    and cs: "currentScore g' = Score 8"
    and cb: "currentBest g' \<in> {''001'', ''010'', ''011''}"
    and sb: "score_of path3 (currentBest g') = 8"
    by (auto simp: s1 s2 s3)
  have "currentBest g' = ''010''" using cb sb s1 s3 by auto
  then show ?thesis using v n l r cs by simp
qed

subsection \<open>What the evaluation calls leave alone\<close>

lemma update_score_same_topology:
  "N (snd (update_score g b)) = N g \<and> E (snd (update_score g b)) = E g \<and>
   adj (snd (update_score g b)) = adj g \<and> runs (snd (update_score g b)) = runs g"
  by (simp add: update_score_def get_score_def split: sum.splits)

lemma expectation_loop_same_topology:
  "N (snd (expectation_loop a g shots rd acc)) = N g \<and>
   E (snd (expectation_loop a g shots rd acc)) = E g \<and>
   adj (snd (expectation_loop a g shots rd acc)) = adj g \<and>
   runs (snd (expectation_loop a g shots rd acc)) = runs g"
proof (induction rd arbitrary: g acc)
  case Nil
  show ?case by simp
next
  case (Cons p rd)
  obtain b c where p: "p = (b, c)" by (cases p)
  obtain r g1 where u: "update_score g b = (r, g1)" by (cases "update_score g b")
  have g1: "N g1 = N g \<and> E g1 = E g \<and> adj g1 = adj g \<and> runs g1 = runs g"
    using update_score_same_topology [of g b] by (simp add: u)
  show ?case
    using g1 Cons.IH [of g1] by (simp add: p u split: sum.splits)
qed

lemma get_expectation_same_topology:
  "N (snd (get_expectation a x g shots rd)) = N g \<and>
   E (snd (get_expectation a x g shots rd)) = E g \<and>
   adj (snd (get_expectation a x g shots rd)) = adj g"
proof -
  obtain gamma beta where x: "x = (gamma, beta)" by (cases x)
  obtain r g1 where l: "expectation_loop a g shots rd (PyInt 0) = (r, g1)"
    by (cases "expectation_loop a g shots rd (PyInt 0)")
  have "N g1 = N g \<and> E g1 = E g \<and> adj g1 = adj g"
    using expectation_loop_same_topology [of a g shots rd "PyInt 0"] by (simp add: l)
  then show ?thesis
    by (cases r) (simp_all add: get_expectation_def x l add_run_def)
qed

lemma perform_same_topology:
  "N (snd (perform a g c)) = N g \<and> E (snd (perform a g c)) = E g \<and>
   adj (snd (perform a g c)) = adj g"
proof (cases c)
  case (Update_score b)
  then show ?thesis
    using update_score_same_topology [of g b] by (auto split: prod.splits sum.splits)
next
  case (Add_run gamma beta e)
  then show ?thesis by (simp add: add_run_def)
next
  case (Get_expectation x shots rd)
  then show ?thesis
    using get_expectation_same_topology [of a x g shots rd]
    by (auto split: prod.splits sum.splits)
qed

lemma graph_after_Cons:
  "graph_after a g (c # cs) =
     (case perform a g c of (Raised e, g1) \<Rightarrow> g1 | (r, g1) \<Rightarrow> graph_after a g1 cs)"
  by (simp add: graph_after_def split: prod.splits outcome.splits)

lemma graph_after_same_topology:
  "N (graph_after a g cs) = N g \<and> E (graph_after a g cs) = E g \<and>
   adj (graph_after a g cs) = adj g"
proof (induction cs arbitrary: g)
  case Nil
  show ?case by (simp add: graph_after_def)
next
  case (Cons c cs)
  obtain r g1 where p: "perform a g c = (r, g1)" by (cases "perform a g c")
  have g1: "N g1 = N g \<and> E g1 = E g \<and> adj g1 = adj g"
    using perform_same_topology [of a g c] by (simp add: p)
  show ?case using g1 Cons.IH [of g1] by (cases r) (simp_all add: graph_after_Cons p)
qed

lemma add_edge_keeps_tracking:
  "currentScore (snd (add_edge g u v w)) = currentScore g \<and>
   currentBest (snd (add_edge g u v w)) = currentBest g \<and>
   runs (snd (add_edge g u v w)) = runs g"
  by (simp add: add_edge_def Let_def split: option.splits)

lemma add_edges_keeps_tracking:
  "currentScore (add_edges g es) = currentScore g \<and>
   currentBest (add_edges g es) = currentBest g \<and>
   runs (add_edges g es) = runs g"
proof (induction es arbitrary: g)
  case Nil
  show ?case by simp
next
  case (Cons e es)
  obtain u v w where e: "e = (u, v, w)" by (cases e)
  obtain r g1 where a: "add_edge g u v w = (r, g1)" by (cases "add_edge g u v w")
  have "currentScore g1 = currentScore g \<and> currentBest g1 = currentBest g \<and> runs g1 = runs g"
    using add_edge_keeps_tracking [of g u v w] by (simp add: a)
  then show ?case using Cons.IH [of g1] by (cases r) (simp_all add: e a)
qed

lemma constructed_tracking:
  "currentScore (add_edges (Graph_init n) es) = NegInf \<and>
   currentBest (add_edges (Graph_init n) es) = [] \<and>
   runs (add_edges (Graph_init n) es) = []"
  using add_edges_keeps_tracking [of "Graph_init n" es] by (simp add: Graph_init_def)

lemma clear_runs_restores:
  "clear_runs (graph_after a (add_edges (Graph_init n) es) earlier) =
     add_edges (Graph_init n) es"
  using constructed_tracking [of n es]
    graph_after_same_topology [of a "add_edges (Graph_init n) es" earlier]
  by (simp add: clear_runs_def)

text \<open>
  Claim C8. Take a graph as constructed (\<open>__init__\<close> and any \<open>add_edge\<close> calls) and
  any earlier sequence of \<open>update_score\<close>, \<open>add_run\<close> and \<open>get_expectation\<close> calls on
  it. After \<open>clear_runs\<close>, which leaves \<open>currentScore\<close> at \<open>-inf\<close>, \<open>currentBest\<close>
  empty and \<open>runs\<close> empty, every further sequence of such calls has the outcomes and
  passes through the graphs that the same sequence has on the graph as constructed; so
  the values of \<open>currentScore\<close> and of \<open>runs\<close> after each call coincide. This holds
  whatever the arithmetic of the floats is.
\<close>

theorem clear_runs_like_fresh:
  "trace a (clear_runs (graph_after a (add_edges (Graph_init n) es) earlier)) calls =
     trace a (add_edges (Graph_init n) es) calls \<and>
   map (\<lambda>(r, g). currentScore g)
       (trace a (clear_runs (graph_after a (add_edges (Graph_init n) es) earlier)) calls) =
     map (\<lambda>(r, g). currentScore g) (trace a (add_edges (Graph_init n) es) calls) \<and>
   map (\<lambda>(r, g). runs g)
       (trace a (clear_runs (graph_after a (add_edges (Graph_init n) es) earlier)) calls) =
     map (\<lambda>(r, g). runs g) (trace a (add_edges (Graph_init n) es) calls) \<and>
   currentScore (clear_runs (graph_after a (add_edges (Graph_init n) es) earlier)) = NegInf \<and>
   currentBest (clear_runs (graph_after a (add_edges (Graph_init n) es) earlier)) = [] \<and>
   runs (clear_runs (graph_after a (add_edges (Graph_init n) es) earlier)) = []"
  by (simp add: clear_runs_restores constructed_tracking)

subsection \<open>The objective value\<close>




subsection \<open>Graphs built by \<open>add_edge\<close>\<close>

lemma set_get_edges:
  "set (get_edges g) = {(u, v, w). \<exists>nbrs. (u, nbrs) \<in> set (adj g) \<and> (v, w) \<in> set nbrs}"
  by (auto simp: get_edges_def)

lemma valid_edges_Graph_init: "valid_edges (Graph_init n)"
  by (auto simp: valid_edges_def in_range_def set_get_edges Graph_init_def)

lemma get_edges_add_edge:
  "set (get_edges (snd (add_edge g u v w))) \<subseteq> insert (u, v, w) (set (get_edges g))"
proof (cases "map_of (adj g) u")
  case None
  then show ?thesis by (auto simp: add_edge_def set_get_edges)
next
  case (Some nbrs)
  then have old: "(u, nbrs) \<in> set (adj g)" by (rule map_of_SomeD)
  have a: "adj (snd (add_edge g u v w)) = dict_set u (dict_set v w nbrs) (adj g)"
    using Some by (simp add: add_edge_def)
  show ?thesis
  proof
    fix e assume "e \<in> set (get_edges (snd (add_edge g u v w)))"
    then obtain x y z ns where e: "e = (x, y, z)"
      and o: "(x, ns) \<in> set (dict_set u (dict_set v w nbrs) (adj g))" and i: "(y, z) \<in> set ns"
      by (auto simp: set_get_edges a)
    from o set_dict_set [of u "dict_set v w nbrs" "adj g"]
    consider "(x, ns) = (u, dict_set v w nbrs)" | "(x, ns) \<in> set (adj g)" by auto
    then show "e \<in> insert (u, v, w) (set (get_edges g))"
    proof cases
      case 1
      with i set_dict_set [of v w nbrs] have "(y, z) = (v, w) \<or> (y, z) \<in> set nbrs" by auto
      then show ?thesis using 1 old by (auto simp: e set_get_edges)
    next
      case 2
      then show ?thesis using i by (auto simp: e set_get_edges)
    qed
  qed
qed

lemma valid_edges_add_edge:
  assumes "valid_edges g" and "- int (N g) \<le> u" "u < int (N g)" and "- int (N g) \<le> v" "v < int (N g)"
  shows "valid_edges (snd (add_edge g u v w))"
proof -
  have n: "N (snd (add_edge g u v w)) = N g"
    by (simp add: add_edge_def Let_def split: option.splits)
  show ?thesis
    using assms get_edges_add_edge [of g u v w]
    unfolding valid_edges_def in_range_def n by blast
qed

subsection \<open>The exact optimum\<close>

lemma range_bound: "nat \<lceil>(2 ^ n :: rat) / 2\<rceil> = (if n = 0 then 1 else 2 ^ (n - 1))"
proof (cases n)
  case 0
  have "\<lceil>(1::rat) / 2\<rceil> = 1" by (rule ceiling_unique) simp_all
  then show ?thesis using 0 by simp
next
  case (Suc m)
  have "(2 ^ Suc m :: rat) / 2 = of_int (2 ^ m)" by simp
  then have "\<lceil>(2 ^ Suc m :: rat) / 2\<rceil> = 2 ^ m" by (simp only: ceiling_of_int)
  then show ?thesis using Suc by (simp add: nat_power_eq)
qed

lemma fold_max_ge: "best \<le> fold max ss best" for best :: int
  by (induction ss arbitrary: best) (auto intro: order_trans [OF max.cobounded2])

lemma fold_max_ge_elem: "s \<in> set ss \<Longrightarrow> s \<le> fold max ss best" for best :: int
proof (induction ss arbitrary: best)
  case Nil
  then show ?case by simp
next
  case (Cons a ss)
  show ?case
  proof (cases "s = a")
    case True
    have "a \<le> max a best" by simp
    also have "\<dots> \<le> fold max ss (max a best)" by (rule fold_max_ge)
    finally show ?thesis using True by simp
  next
    case False
    then have "s \<in> set ss" using Cons.prems by simp
    then show ?thesis using Cons.IH by simp
  qed
qed

lemma fold_max_in: "fold max ss best \<in> insert best (set ss)" for best :: int
proof (induction ss arbitrary: best)
  case Nil
  show ?case by simp
next
  case (Cons a ss)
  have m: "max a best = a \<or> max a best = best" by (simp add: max_def)
  have "fold max ss (max a best) \<in> insert (max a best) (set ss)" by (rule Cons.IH)
  with m show ?case by auto
qed

lemma length_bits: "length (bits n i) = n"
  by (induction n arbitrary: i) auto

lemma bits_zero: "bits n 0 = replicate n CHR ''0''"
  by (induction n) (auto simp: bit_char_def replicate_append_same)

lemma length_bin_digits_pos: "0 < length (bin_digits i)"
  by (subst bin_digits.simps) simp

lemma padded_bits: "0 < n \<Longrightarrow> i < 2 ^ n \<Longrightarrow> padded n i = bits n i"
proof (induction n arbitrary: i)
  case 0
  then show ?case by simp
next
  case (Suc n)
  show ?case
  proof (cases "i < 2")
    case True
    then have "bin_digits i = [bit_char i]" by (subst bin_digits.simps) simp
    moreover have "i div 2 = 0" "i mod 2 = i" using True by simp_all
    ultimately show ?thesis by (simp add: padded_def bits_zero)
  next
    case False
    then have bd: "bin_digits i = bin_digits (i div 2) @ [bit_char (i mod 2)]"
      by (subst bin_digits.simps) simp
    have n: "0 < n"
    proof (rule ccontr)
      assume "\<not> 0 < n"
      then have "i < 2" using Suc.prems(2) by simp
      with False show False by simp
    qed
    have "i div 2 < 2 ^ n" using Suc.prems(2) by simp
    from Suc.IH [OF n this] have "padded n (i div 2) = bits n (i div 2)" .
    then show ?thesis by (simp add: padded_def bd)
  qed
qed

lemma bits_small: "i < 2 ^ n \<Longrightarrow> bits (Suc n) i = CHR ''0'' # bits n i"
proof (induction n arbitrary: i)
  case 0
  then show ?case by (simp add: bit_char_def)
next
  case (Suc n)
  have "i div 2 < 2 ^ n" using Suc.prems by simp
  from Suc.IH [OF this] have "bits (Suc n) (i div 2) = CHR ''0'' # bits n (i div 2)" .
  then show ?case by simp
qed

lemma is_bitstring_bits: "is_bitstring n (bits n i)"
  by (induction n arbitrary: i) (auto simp: is_bitstring_def bit_char_def)

lemma bits_onto: "is_bitstring n b \<Longrightarrow> \<exists>i < 2 ^ n. bits n i = b"
proof (induction n arbitrary: b)
  case 0
  then show ?case by (simp add: is_bitstring_def)
next
  case (Suc n)
  from Suc.prems obtain c b' where b: "b = b' @ [c]" and l: "length b' = n"
    by (auto simp: is_bitstring_def length_Suc_conv_rev)
  have b': "is_bitstring n b'" and c: "c = CHR ''0'' \<or> c = CHR ''1''"
    using Suc.prems by (auto simp: is_bitstring_def b l)
  from Suc.IH [OF b'] obtain i where i: "i < 2 ^ n" and bi: "bits n i = b'" by blast
  define d :: nat where "d = (if c = CHR ''0'' then 0 else 1)"
  have d: "d < 2" "bit_char d = c" using c by (auto simp: d_def bit_char_def)
  have "2 * i + d < 2 ^ Suc n" using i d(1) by simp
  moreover have "bits (Suc n) (2 * i + d) = b" using d bi by (simp add: b)
  ultimately show ?case by blast
qed

lemma low_half_onto:
  assumes "is_bitstring n b" and "hd b = CHR ''0''" and "0 < n"
  shows "\<exists>i < 2 ^ (n - 1). padded n i = b"
proof -
  obtain m where m: "n = Suc m" using assms(3) by (cases n) auto
  from assms(1) m obtain c b' where b: "b = c # b'" by (cases b) (auto simp: is_bitstring_def)
  have c: "c = CHR ''0''" using assms(2) b by simp
  have "is_bitstring m b'" using assms(1) by (auto simp: is_bitstring_def b m)
  from bits_onto [OF this] obtain i where i: "i < 2 ^ m" and bi: "bits m i = b'" by blast
  have "i < 2 ^ n" using i by (simp add: m)
  then have "padded n i = bits n i" using assms(3) by (rule padded_bits [rotated])
  also have "\<dots> = b" using bits_small [OF i] by (simp add: m b c bi)
  finally show ?thesis using i by (auto simp: m)
qed

lemma is_bitstring_padded: "0 < n \<Longrightarrow> i < 2 ^ n \<Longrightarrow> is_bitstring n (padded n i)"
  by (simp add: padded_bits is_bitstring_bits)

lemma optimal_loop_valid:
  assumes v: "valid_edges g"
  shows "\<forall>i\<in>set is. length (padded (N g) i) = N g \<Longrightarrow>
    optimal_loop g is best best_val =
      (Inr (fold max (map (\<lambda>i. score_of g (padded (N g) i)) is) best,
            (if fold max (map (\<lambda>i. score_of g (padded (N g) i)) is) best = best
             then best_val else []) @
            filter (\<lambda>b. score_of g b = fold max (map (\<lambda>i. score_of g (padded (N g) i)) is) best)
                   (map (padded (N g)) is)), g)"
proof (induction "is" arbitrary: best best_val)
  case Nil
  show ?case by simp
next
  case (Cons i "is")
  define b where "b = padded (N g) i"
  define sc where "sc = score_of g b"
  define F where "F = fold max (map (\<lambda>i. score_of g (padded (N g) i)) is)"
  have len: "length b = N g" using Cons.prems by (simp add: b_def)
  have rest: "\<forall>i\<in>set is. length (padded (N g) i) = N g" using Cons.prems by simp
  have gs: "get_score g b = (Inr sc, g)"
    using get_score_cut_weight [OF v len] score_of_cut_weight [OF v len] by (simp add: sc_def)
  have IH: "optimal_loop g is x xs =
      (Inr (F x, (if F x = x then xs else []) @
                 filter (\<lambda>b. score_of g b = F x) (map (padded (N g)) is)), g)" for x xs
    using Cons.IH [OF rest] by (simp add: F_def)
  have ge: "x \<le> F x" for x unfolding F_def by (rule fold_max_ge)
  have unfold_F: "fold max (map (\<lambda>i. score_of g (padded (N g) i)) (i # is)) best = F (max sc best)"
    by (simp add: F_def sc_def b_def)
  have unfold_c: "map (padded (N g)) (i # is) = b # map (padded (N g)) is"
    by (simp add: b_def)
  consider (gt) "best < sc" | (eq) "sc = best" | (lt) "sc < best" by linarith
  then have "optimal_loop g (i # is) best best_val =
      (Inr (F (max sc best),
            (if F (max sc best) = best then best_val else []) @
            filter (\<lambda>b. score_of g b = F (max sc best)) (b # map (padded (N g)) is)), g)"
  proof cases
    case gt
    then have m: "max sc best = sc" by simp
    have ne: "F sc \<noteq> best" using ge [of sc] gt by simp
    have step: "optimal_loop g (i # is) best best_val = optimal_loop g is sc [b]"
      using gt gs by (simp add: b_def Let_def)
    have "score_of g b = F sc \<longleftrightarrow> F sc = sc" by (auto simp: sc_def)
    then show ?thesis unfolding step IH m using ne by simp
  next
    case eq
    then have m: "max sc best = best" by simp
    have step: "optimal_loop g (i # is) best best_val = optimal_loop g is best (best_val @ [b])"
      using eq gs by (simp add: b_def Let_def)
    have "score_of g b = F best \<longleftrightarrow> F best = best" using eq by (auto simp: sc_def)
    then show ?thesis unfolding step IH m by simp
  next
    case lt
    then have m: "max sc best = best" by simp
    have ne: "score_of g b \<noteq> F best" using ge [of best] lt by (simp add: sc_def)
    have step: "optimal_loop g (i # is) best best_val = optimal_loop g is best best_val"
      using lt gs by (simp add: b_def Let_def)
    show ?thesis unfolding step IH m using ne by simp
  qed
  then show ?case unfolding unfold_F unfold_c .
qed

lemma place_replicate:
  "- int n \<le> i \<Longrightarrow> i < int n \<Longrightarrow> place (replicate n c) i = c"
  by (auto simp: place_def)

lemma cut_weight_replicate: "in_range n es \<Longrightarrow> cut_weight es (replicate n c) = 0"
proof -
  assume r: "in_range n es"
  have "(if place (replicate n c) u \<noteq> place (replicate n c) v then w else 0) = 0"
    if "(u, v, w) \<in> set es" for u v w
    using that r by (auto simp: in_range_def place_replicate)
  then have eq: "map (\<lambda>(u, v, w). if place (replicate n c) u \<noteq> place (replicate n c) v
                     then w else 0) es = map (\<lambda>e. 0) es"
    by (intro map_cong) auto
  show ?thesis by (simp only: cut_weight_def eq) simp
qed

lemma score_of_zeros:
  "valid_edges g \<Longrightarrow> 0 < N g \<Longrightarrow> score_of g (padded (N g) 0) = 0"
proof -
  assume v: "valid_edges g" and n: "0 < N g"
  have p: "padded (N g) 0 = replicate (N g) CHR ''0''"
    using padded_bits [OF n, of 0] by (simp add: bits_zero)
  show ?thesis
    using v score_of_cut_weight [OF v, of "replicate (N g) CHR ''0''"]
    by (simp add: p valid_edges_def cut_weight_replicate)
qed

lemma is_bitstring_complement: "is_bitstring n b \<Longrightarrow> is_bitstring n (complement b)"
  by (auto simp: is_bitstring_def complement_def flip_def)

lemma hd_complement:
  "is_bitstring n b \<Longrightarrow> 0 < n \<Longrightarrow> hd b \<noteq> CHR ''0'' \<Longrightarrow> hd (complement b) = CHR ''0''"
  by (cases b) (auto simp: is_bitstring_def complement_def flip_def)

lemma score_of_complement:
  "valid_edges g \<Longrightarrow> length b = N g \<Longrightarrow> score_of g (complement b) = score_of g b"
proof -
  assume v: "valid_edges g" and l: "length b = N g"
  have lc: "length (complement b) = N g" by (simp add: complement_def l)
  show ?thesis
    using v l by (simp add: score_of_cut_weight [OF v l] score_of_cut_weight [OF v lc]
        valid_edges_def cut_weight_complement)
qed

text \<open>
  Claim C4, amended. For a graph with at least one and at most 1024 vertices whose stored
  vertex numbers are valid subscripts, \<open>optimal_score\<close> returns a score that no
  bitstring of length \<open>N\<close> exceeds, and the list of the bitstrings of index 0 to
  \<open>2 ^ (N - 1) - 1\<close> that have this score, in the order of their indices; the list is not
  empty, so the score is the maximum over all \<open>2 ^ N\<close> bitstrings.
\<close>

theorem optimal_score_maximum:
  assumes v: "valid_edges g" and pos: "0 < N g" and small: "N g \<le> 1024"
  shows "\<exists>best best_val. optimal_score g = (Inr (best, best_val), g) \<and>
      (\<forall>b. is_bitstring (N g) b \<longrightarrow>
           fst (get_score g b) = Inr (score_of g b) \<and> score_of g b \<le> best) \<and>
      best_val = filter (\<lambda>b. score_of g b = best) (map (padded (N g)) [0..<2 ^ (N g - 1)]) \<and>
      best_val \<noteq> [] \<and> (\<forall>b\<in>set best_val. is_bitstring (N g) b)"
proof -
  define half :: "nat list" where "half = [0..<2 ^ (N g - 1)]"
  define scores where "scores = map (\<lambda>i. score_of g (padded (N g) i)) half"
  define best where "best = fold max scores 0"
  define best_val where "best_val = filter (\<lambda>b. score_of g b = best) (map (padded (N g)) half)"
  have le: "(2::nat) ^ (N g - 1) \<le> 2 ^ N g" by (rule power_increasing) simp_all
  have bs: "is_bitstring (N g) (padded (N g) i)" if "i \<in> set half" for i
  proof -
    from that have "i < 2 ^ (N g - 1)" by (simp add: half_def)
    with le have "i < 2 ^ N g" by (rule less_le_trans [rotated])
    then show ?thesis using pos by (simp add: is_bitstring_padded)
  qed
  then have lens: "\<forall>i\<in>set half. length (padded (N g) i) = N g"
    by (simp add: is_bitstring_def)
  have "optimal_score g = optimal_loop g half 0 []"
    using pos small by (simp add: optimal_score_def range_bound half_def)
  then have run: "optimal_score g = (Inr (best, best_val), g)"
    by (simp add: optimal_loop_valid [OF v lens] best_def scores_def best_val_def)
  have zero: "0 \<in> set half" by (simp add: half_def)
  have "score_of g (padded (N g) 0) \<in> set scores"
    unfolding scores_def set_map using zero by (rule imageI)
  then have z: "0 \<in> set scores" using score_of_zeros [OF v pos] by simp
  have "best \<in> insert 0 (set scores)" unfolding best_def by (rule fold_max_in)
  then have "best \<in> set scores" using z by auto
  then obtain i where i: "i \<in> set half" and si: "score_of g (padded (N g) i) = best"
    by (auto simp: scores_def)
  then have "padded (N g) i \<in> set best_val" by (simp add: best_val_def)
  then have ne: "best_val \<noteq> []" by auto
  have all_bs: "\<forall>b\<in>set best_val. is_bitstring (N g) b"
    using bs by (auto simp: best_val_def)
  have low: "score_of g b \<le> best" if b: "is_bitstring (N g) b" and h: "hd b = CHR ''0''" for b
  proof -
    from low_half_onto [OF b h pos] obtain i where "i < 2 ^ (N g - 1)" and "padded (N g) i = b"
      by blast
    then have "score_of g b \<in> set scores" by (auto simp: scores_def half_def)
    then show ?thesis unfolding best_def by (rule fold_max_ge_elem)
  qed
  have bound: "fst (get_score g b) = Inr (score_of g b) \<and> score_of g b \<le> best"
    if b: "is_bitstring (N g) b" for b
  proof -
    have len: "length b = N g" using b by (simp add: is_bitstring_def)
    have ok: "fst (get_score g b) = Inr (score_of g b)"
      by (simp add: get_score_cut_weight [OF v len] score_of_cut_weight [OF v len])
    have "score_of g b \<le> best"
    proof (cases "hd b = CHR ''0''")
      case True
      then show ?thesis using low [OF b] by simp
    next
      case False
      have "score_of g (complement b) \<le> best"
        using low [OF is_bitstring_complement [OF b] hd_complement [OF b pos False]] .
      then show ?thesis using score_of_complement [OF v len] by simp
    qed
    with ok show ?thesis by simp
  qed
  show ?thesis
    using run bound ne all_bs unfolding best_val_def half_def by blast
qed

theorem optimal_score_maximum_witness:
  "valid_edges path3 \<and> 0 < N path3 \<and> N path3 \<le> 1024 \<and>
   fst (optimal_score path3) = Inr (8, [''010'']) \<and>
   fst (get_score path3 ''101'') = Inr 8 \<and>
   score_of path3 ''110'' \<le> 8"
proof -
  have v: "valid_edges path3" by code_simp
  have p: "0 < N path3" by (simp add: path3_eq)
  have s: "N path3 \<le> 1024" by (simp add: path3_eq)
  have r: "optimal_score path3 = (Inr (8, [''010'']), path3)" by code_simp
  have b1: "is_bitstring (N path3) ''101''" by (simp add: is_bitstring_def path3_eq)
  have b2: "is_bitstring (N path3) ''110''" by (simp add: is_bitstring_def path3_eq)
  have s1: "score_of path3 ''101'' = 8" by code_simp
  from optimal_score_maximum [OF v p s] obtain best best_val where
    "optimal_score path3 = (Inr (best, best_val), path3)"
    and bound: "\<forall>b. is_bitstring (N path3) b \<longrightarrow>
           fst (get_score path3 b) = Inr (score_of path3 b) \<and> score_of path3 b \<le> best"
    by blast
  then have best: "best = 8" using r by simp
  have "fst (get_score path3 ''101'') = Inr 8" using bound b1 s1 by auto
  moreover have "score_of path3 ''110'' \<le> 8" using bound b2 best by auto
  ultimately show ?thesis using v p s r by simp
qed

text \<open>
  Claim C4, as stated, fails. On the graph with no vertex the one candidate is \<open>"0"\<close>, of
  length 1, and the assertion of \<open>get_score\<close> raises. With 1025 vertices the float division
  overflows. With a stored neighbour that is no subscript, here vertex 5 in a graph with
  two vertices, \<open>get_score\<close> raises \<open>IndexError\<close>.
\<close>

theorem optimal_score_fails_counterexample:
  "optimal_score (Graph_init 0) = (Inl AssertionError, Graph_init 0) \<and>
   fst (optimal_score (Graph_init 1025)) = Inl OverflowError \<and>
   fst (add_edge (Graph_init 2) 0 5 1) = Inr () \<and>
   fst (optimal_score (snd (add_edge (Graph_init 2) 0 5 1))) = Inl IndexError"
proof -
  have a: "optimal_score (Graph_init 0) = (Inl AssertionError, Graph_init 0)" by code_simp
  have b: "fst (optimal_score (Graph_init 1025)) = Inl OverflowError"
    by (simp add: optimal_score_def Graph_init_def)
  have c: "fst (add_edge (Graph_init 2) 0 5 1) = Inr ()" by code_simp
  have d: "fst (optimal_score (snd (add_edge (Graph_init 2) 0 5 1))) = Inl IndexError"
    by code_simp
  show ?thesis using a b c d by simp
qed

end
